theory Spec2Isabelle
  imports Main "HOL-Library.AList"
begin

section \<open>JavaScript values\<close>

text \<open>
  The crawler of \<^verbatim>\<open>src/crawler.js\<close> handles primitive JavaScript values: host names and
  ports taken from decoded JSON documents. A number is modelled as an integer (ports are
  integers); its string form is its decimal numeral.
\<close>

datatype jsval = Undefined | Null | Bool bool | Num int | Str string

fun truthy :: "jsval \<Rightarrow> bool" where
  "truthy Undefined = False"
| "truthy Null = False"
| "truthy (Bool b) = b"
| "truthy (Num n) = (n \<noteq> 0)"
| "truthy (Str s) = (s \<noteq> [])"

text \<open>\<^verbatim>\<open>a || b\<close> yields the left operand when it is truthy, the right one otherwise.\<close>

definition js_or :: "jsval \<Rightarrow> jsval \<Rightarrow> jsval" where
  "js_or a b = (if truthy a then a else b)"

fun dec_digits :: "nat \<Rightarrow> string" where
  "dec_digits n =
     (if n < 10 then [''0123456789'' ! n]
      else dec_digits (n div 10) @ [''0123456789'' ! (n mod 10)])"

declare dec_digits.simps [simp del]

fun to_string :: "jsval \<Rightarrow> string" where
  "to_string Undefined = ''undefined''"
| "to_string Null = ''null''"
| "to_string (Bool b) = (if b then ''true'' else ''false'')"
| "to_string (Num n) = (if n < 0 then CHR ''-'' # dec_digits (nat (- n)) else dec_digits (nat n))"
| "to_string (Str s) = s"

text \<open>
  \<^verbatim>\<open>s.split(c)\<close> for a one-character separator: the pieces between the separators, so
  at least one piece, and one more piece than there are separators.
\<close>

fun split_on :: "char \<Rightarrow> string \<Rightarrow> string list" where
  "split_on c [] = [[]]"
| "split_on c (x # xs) =
     (if x = c then [] # split_on c xs
      else (x # hd (split_on c xs)) # tl (split_on c xs))"

text \<open>\<^verbatim>\<open>arr[i]\<close> on an array of strings: \<^verbatim>\<open>undefined\<close> out of range.\<close>

definition js_index :: "string list \<Rightarrow> nat \<Rightarrow> jsval" where
  "js_index arr i = (if i < length arr then Str (arr ! i) else Undefined)"

text \<open>What stops the program: an exception (by its class), or the exit of the process.\<close>

datatype fault =
    TypeError string
  | ReferenceError string
  | ThrownError string
  | ProcessExit string

section \<open>Constants and helpers\<close>

definition DEFAULT_PORT :: jsval where
  "DEFAULT_PORT = Num 51235"

datatype request_status = QUEUED | REQUESTING

text \<open>
  \<^verbatim>\<open>abortIfNot(expression, message)\<close>: nothing when the expression holds; otherwise, with the
  module's flag \<^verbatim>\<open>DEBUG\<close> set, the message is written to the error console and the process
  exits, and with the flag cleared an \<^verbatim>\<open>Error\<close> carrying the message is thrown. The flag is
  the first argument.
\<close>

definition abortIfNot :: "bool \<Rightarrow> bool \<Rightarrow> string \<Rightarrow> fault option" where
  "abortIfNot dbg expression message =
     (if \<not> expression then
        (if \<not> dbg then Some (ThrownError message) else Some (ProcessExit message))
      else None)"

definition DEBUG :: bool where
  "DEBUG = True"

definition withDefaultPort :: "string \<Rightarrow> string" where
  "withDefaultPort domainOrIp =
     (if CHR '':'' \<in> set domainOrIp then domainOrIp
      else domainOrIp @ '':'' @ to_string DEFAULT_PORT)"

definition crawlUrl :: "string \<Rightarrow> string" where
  "crawlUrl domainOrIp = ''https://'' @ withDefaultPort domainOrIp @ ''/crawl''"

subsection \<open>normalizePubKey\<close>






subsection \<open>normalizeIpp\<close>

text \<open>
  \<^verbatim>\<open>normalizeIpp\<close> assigns \<^verbatim>\<open>out_ip\<close>, \<^verbatim>\<open>out_port\<close> and \<^verbatim>\<open>ipp\<close> without declaring them:
  they are variables of the global object, created by the first assignment and kept between
  calls. Reading \<^verbatim>\<open>ipp\<close> before it exists throws a \<^verbatim>\<open>ReferenceError\<close>.
\<close>

record globals =
  g_out_ip :: "string option"
  g_out_port :: "jsval option"
  g_ipp :: "string option"

definition fresh_globals :: globals where
  "fresh_globals = \<lparr>g_out_ip = None, g_out_port = None, g_ipp = None\<rparr>"

definition normalizeIpp :: "globals \<Rightarrow> jsval \<Rightarrow> jsval \<Rightarrow> (fault + jsval) \<times> globals" where
  "normalizeIpp g ip port =
     (if truthy ip then
        (case ip of
           Str s \<Rightarrow>
             (let split = split_on CHR '':'' s;
                  splitIp = hd split;
                  splitPort = js_index split 1;
                  out_port = js_or (js_or port splitPort) DEFAULT_PORT;
                  ippv = splitIp @ '':'' @ to_string out_port
              in (Inr (Str ippv),
                  g\<lparr>g_out_ip := Some splitIp, g_out_port := Some out_port, g_ipp := Some ippv\<rparr>))
         | _ \<Rightarrow> (Inl (TypeError ''ip.split is not a function''), g))
      else (case g_ipp g of
              None \<Rightarrow> (Inl (ReferenceError ''ipp is not defined''), g)
            | Some v \<Rightarrow> (Inr (Str v), g)))"

text \<open>
  The words of the specification: the host is what precedes the first colon, the embedded
  port what stands between the first colon and the next one (or the end).
\<close>

definition host_part :: "string \<Rightarrow> string" where
  "host_part s = takeWhile (\<lambda>c. c \<noteq> CHR '':'') s"

definition embedded_port :: "string \<Rightarrow> string" where
  "embedded_port s = takeWhile (\<lambda>c. c \<noteq> CHR '':'') (drop 1 (dropWhile (\<lambda>c. c \<noteq> CHR '':'') s))"

section \<open>The crawler\<close>

text \<open>
  A peer descriptor of \<^verbatim>\<open>body.overlay.active\<close> with its \<^verbatim>\<open>ip\<close> and \<^verbatim>\<open>port\<close>, the decoded
  document with that list and its other fields, which the crawler stores and does not
  read, and what a fetch resolves with: an error with its code, a
  document, or neither an error nor a document with the list (\<^verbatim>\<open>null\<close>, or JSON without
  \<^verbatim>\<open>overlay.active\<close>).
\<close>

datatype peer = Peer (peer_ip: jsval) (peer_port: jsval)

datatype body = Body (overlay_active: "peer list") (other_fields: "(string \<times> jsval) list")

datatype response = Failure (err_code: string) | Success body | NoPeerList

text \<open>An issued request that has not resolved yet: its URL, and the \<^verbatim>\<open>ipp\<close> and
  \<^verbatim>\<open>hops\<close> its callback closes over.\<close>

datatype fetch = Fetch (f_url: string) (f_ipp: string) (f_hops: nat)

text \<open>The object emitted with the event \<^verbatim>\<open>done\<close>.\<close>

record report =
  r_start :: "string option"
  r_end :: "string option"
  r_entry :: "string option"
  r_data :: "string \<rightharpoonup> body"
  r_errors :: "string \<rightharpoonup> string"

text \<open>
  The fields of a \<^verbatim>\<open>Crawler\<close>, and with them what surrounds it: the global variables of
  the module, the requests in flight (held by the event loop) and the \<^verbatim>\<open>done\<close> events emitted
  so far. \<^verbatim>\<open>queued\<close> keeps its keys in insertion order, the order of \<^verbatim>\<open>Object.keys\<close>.

  The keys of the three maps are addresses. \<^verbatim>\<open>withDefaultPort\<close> and \<^verbatim>\<open>normalizeIpp\<close> put a
  colon into every address, so a key is neither an array index nor the name of a property
  that a plain object inherits, and reading \<^verbatim>\<open>map[key]\<close> is a lookup among the object's own
  properties. The values stored are never \<^verbatim>\<open>undefined\<close>: a status, a decoded document, and
  an error code, which is taken to be a string as the codes of network errors are. So
  \<^verbatim>\<open>map[key] === undefined\<close> says that the key is absent.
\<close>

record crawler =
  maxRequests :: nat
  currentRequests :: int
  rawResponses :: "string \<rightharpoonup> body"
  queued :: "(string \<times> request_status) list"
  errors :: "string \<rightharpoonup> string"
  peersData :: "string \<rightharpoonup> (string \<rightharpoonup> jsval)"
  startTime :: "string option"
  endTime :: "string option"
  entryIP :: "string option"
  module_globals :: globals
  pending :: "fetch list"
  emitted :: "report list"

definition Crawler :: "nat option \<Rightarrow> globals \<Rightarrow> crawler" where
  "Crawler maxReq g =
     \<lparr>maxRequests = (case maxReq of None \<Rightarrow> 30 | Some n \<Rightarrow> if n \<noteq> 0 then n else 30),
      currentRequests = 0,
      rawResponses = Map.empty,
      queued = [],
      errors = Map.empty,
      peersData = Map.empty,
      startTime = None,
      endTime = None,
      entryIP = None,
      module_globals = g,
      pending = [],
      emitted = []\<rparr>"

subsection \<open>The queue\<close>

definition enqueue :: "bool \<Rightarrow> crawler \<Rightarrow> string \<Rightarrow> fault + crawler" where
  "enqueue dbg s ipp =
     (case abortIfNot dbg (map_of (queued s) ipp = None) ''queued already'' of
        Some f \<Rightarrow> Inl f
      | None \<Rightarrow> Inr (s\<lparr>queued := AList.update ipp QUEUED (queued s)\<rparr>))"

definition dequeue :: "bool \<Rightarrow> crawler \<Rightarrow> string \<Rightarrow> fault + crawler" where
  "dequeue dbg s ipp =
     (case abortIfNot dbg (map_of (queued s) ipp \<noteq> None) ''not queued already'' of
        Some f \<Rightarrow> Inl f
      | None \<Rightarrow> Inr (s\<lparr>queued := AList.delete ipp (queued s)\<rparr>))"

definition enqueueIfNeeded :: "bool \<Rightarrow> crawler \<Rightarrow> jsval \<Rightarrow> fault + crawler" where
  "enqueueIfNeeded dbg s ipp =
     (if truthy ipp then
        (if rawResponses s (to_string ipp) = None \<and>
            map_of (queued s) (to_string ipp) = None \<and>
            errors s (to_string ipp) = None
         then enqueue dbg s (to_string ipp)
         else Inr s)
      else Inr s)"

subsection \<open>Issuing a request\<close>

definition crawlRequest :: "crawler \<Rightarrow> string \<Rightarrow> nat \<Rightarrow> crawler" where
  "crawlRequest s ip hops = s\<lparr>pending := pending s @ [Fetch (crawlUrl ip) ip hops]\<rparr>"

definition crawlOne :: "crawler \<Rightarrow> string \<Rightarrow> nat \<Rightarrow> crawler" where
  "crawlOne s ipp hops = crawlRequest (s\<lparr>currentRequests := currentRequests s + 1\<rparr>) ipp hops"

text \<open>The part of \<^verbatim>\<open>crawl\<close> that runs at the call; its callback is \<open>complete\<close> below.\<close>

definition crawl :: "crawler \<Rightarrow> string \<Rightarrow> nat \<Rightarrow> crawler" where
  "crawl s ipp hops = crawlOne (s\<lparr>queued := AList.update ipp REQUESTING (queued s)\<rparr>) ipp hops"

definition enter :: "crawler \<Rightarrow> string \<Rightarrow> string \<Rightarrow> crawler" where
  "enter s ip now =
     crawl (s\<lparr>startTime := Some now, entryIP := Some (withDefaultPort ip)\<rparr>) (withDefaultPort ip) 0"

text \<open>
  \<^verbatim>\<open>requestMore\<close>: the \<^verbatim>\<open>forEach\<close> over the snapshot of the keys. The \<^verbatim>\<open>return false\<close> of
  its callback ends one call of the callback, not the iteration.
\<close>

definition admit :: "crawler \<Rightarrow> nat \<Rightarrow> string \<Rightarrow> crawler" where
  "admit s hops queuedIpp =
     (if currentRequests s < int (maxRequests s) then
        (if map_of (queued s) queuedIpp = Some QUEUED then crawl s queuedIpp (hops + 1) else s)
      else s)"

fun admit_each :: "crawler \<Rightarrow> nat \<Rightarrow> string list \<Rightarrow> crawler" where
  "admit_each s hops [] = s"
| "admit_each s hops (queuedIpp # rest) = admit_each (admit s hops queuedIpp) hops rest"

definition requestMore :: "crawler \<Rightarrow> nat \<Rightarrow> bool \<times> crawler" where
  "requestMore s hops =
     (let ipps = map fst (queued s) in (ipps \<noteq> [], admit_each s hops ipps))"

subsection \<open>The callback of a request\<close>

text \<open>The \<^verbatim>\<open>forEach\<close> over \<^verbatim>\<open>body.overlay.active\<close>; an exception ends it.\<close>

fun discover :: "bool \<Rightarrow> crawler \<Rightarrow> peer list \<Rightarrow> fault + crawler" where
  "discover dbg s [] = Inr s"
| "discover dbg s (p # ps) =
     (case normalizeIpp (module_globals s) (peer_ip p) (peer_port p) of
        (Inl f, g) \<Rightarrow> Inl f
      | (Inr v, g) \<Rightarrow>
          (case enqueueIfNeeded dbg (s\<lparr>module_globals := g\<rparr>) v of
             Inl f \<Rightarrow> Inl f
           | Inr s' \<Rightarrow> discover dbg s' ps))"

text \<open>
  The request at position \<open>i\<close> of the requests in flight resolves: \<^verbatim>\<open>crawlOne\<close>'s callback
  counts it down, \<^verbatim>\<open>crawl\<close>'s callback takes the address off the queue and stores the
  error code, or stores the document and offers its peers to the queue; reading the list
  of a document that has none throws. The event \<^verbatim>\<open>request\<close> that \<^verbatim>\<open>crawlOne\<close>'s callback
  emits has no listener in the module and is left out.
\<close>

definition settle :: "bool \<Rightarrow> crawler \<Rightarrow> nat \<Rightarrow> response \<Rightarrow> fault + crawler" where
  "settle dbg s i resp =
     (let ipp = f_ipp (pending s ! i);
          s1 = s\<lparr>pending := take i (pending s) @ drop (Suc i) (pending s),
                 currentRequests := currentRequests s - 1\<rparr>
      in case dequeue dbg s1 ipp of
           Inl f \<Rightarrow> Inl f
         | Inr s2 \<Rightarrow>
             (case resp of
                Failure code \<Rightarrow> Inr (s2\<lparr>errors := (errors s2)(ipp \<mapsto> code)\<rparr>)
              | Success b \<Rightarrow>
                  discover dbg (s2\<lparr>rawResponses := (rawResponses s2)(ipp \<mapsto> b)\<rparr>)
                    (overlay_active b)
              | NoPeerList \<Rightarrow> Inl (TypeError ''Cannot read property 'active' of undefined'')))"

definition finish :: "crawler \<Rightarrow> string \<Rightarrow> crawler" where
  "finish s now =
     s\<lparr>endTime := Some now,
       emitted := emitted s @
         [\<lparr>r_start = startTime s, r_end = Some now, r_entry = entryIP s,
           r_data = rawResponses s, r_errors = errors s\<rparr>]\<rparr>"

text \<open>The whole callback. Only a request in flight can resolve.\<close>

definition complete :: "bool \<Rightarrow> crawler \<Rightarrow> nat \<Rightarrow> response \<Rightarrow> string \<Rightarrow> fault + crawler" where
  "complete dbg s i resp now =
     (if i < length (pending s) then
        (case settle dbg s i resp of
           Inl f \<Rightarrow> Inl f
         | Inr s3 \<Rightarrow>
             (case requestMore s3 (f_hops (pending s ! i)) of
                (nonEmpty, s4) \<Rightarrow> if \<not> nonEmpty then Inr (finish s4 now) else Inr s4))
      else Inr s)"

subsection \<open>savePeerData\<close>

definition js_get :: "(string \<rightharpoonup> jsval) \<Rightarrow> string \<Rightarrow> jsval" where
  "js_get m k = (case m k of None \<Rightarrow> Undefined | Some v \<Rightarrow> v)"

fun merge_fields :: "jsval \<Rightarrow> (string \<rightharpoonup> jsval) \<Rightarrow> (string \<times> jsval) list \<Rightarrow> (string \<rightharpoonup> jsval)" where
  "merge_fields defaults m [] = m"
| "merge_fields defaults m ((k, v) # rest) =
     merge_fields defaults
       (if k = ''type'' \<or> (truthy defaults \<and> js_get m k \<noteq> Undefined) then m else m(k \<mapsto> v))
       rest"

definition savePeerData :: "crawler \<Rightarrow> string \<Rightarrow> (string \<times> jsval) list \<Rightarrow> jsval \<Rightarrow> crawler" where
  "savePeerData s pk data defaults =
     (let m = (case peersData s pk of Some m0 \<Rightarrow> m0 | None \<Rightarrow> Map.empty)
      in s\<lparr>peersData := (peersData s)(pk \<mapsto> merge_fields defaults m data)\<rparr>)"

subsection \<open>One traversal\<close>

text \<open>
  The states of one traversal: a new crawler entered once, then requests in flight
  resolving in any order, each with any response at any time.
\<close>

inductive reachable :: "bool \<Rightarrow> crawler \<Rightarrow> bool" for dbg :: bool where
  entered: "reachable dbg (enter (Crawler maxReq g) ip now)"
| resolved: "reachable dbg s \<Longrightarrow> i < length (pending s) \<Longrightarrow>
     complete dbg s i resp now = Inr s' \<Longrightarrow> reachable dbg s'"

text \<open>
  The state of an address, read off the three maps.
\<close>

datatype node_state = Unseen | Queued | InFlight | DoneSuccess body | DoneFailure string

definition nodeState :: "crawler \<Rightarrow> string \<Rightarrow> node_state" where
  "nodeState s a =
     (case map_of (queued s) a of
        Some QUEUED \<Rightarrow> Queued
      | Some REQUESTING \<Rightarrow> InFlight
      | None \<Rightarrow>
          (case rawResponses s a of
             Some b \<Rightarrow> DoneSuccess b
           | None \<Rightarrow> (case errors s a of Some e \<Rightarrow> DoneFailure e | None \<Rightarrow> Unseen)))"

definition tracked :: "crawler \<Rightarrow> string \<Rightarrow> bool" where
  "tracked s a = (rawResponses s a \<noteq> None \<or> errors s a \<noteq> None \<or> map_of (queued s) a \<noteq> None)"

text \<open>A state that breaks the queue's contract: one address queued, and a request in
  flight for an address that is not in the queue.\<close>

definition violating_state :: crawler where
  "violating_state =
     (Crawler None fresh_globals)
       \<lparr>queued := [(''a:1'', QUEUED)], pending := [Fetch (crawlUrl ''b:1'') ''b:1'' 0]\<rparr>"


subsection \<open>Invariants of a traversal\<close>

text \<open>
  The counter counts the requests in flight; the addresses with the status
  \<^verbatim>\<open>REQUESTING\<close> are those of the requests in flight, each once; an address is in at most one
  of the three maps.
\<close>

definition inv_count :: "crawler \<Rightarrow> bool" where
  "inv_count s = (currentRequests s = int (length (pending s)))"

definition inv_flight :: "crawler \<Rightarrow> bool" where
  "inv_flight s =
     (distinct (map f_ipp (pending s)) \<and>
      (\<forall>a. map_of (queued s) a = Some REQUESTING \<longleftrightarrow> a \<in> f_ipp ` set (pending s)))"

definition inv_disjoint :: "crawler \<Rightarrow> bool" where
  "inv_disjoint s =
     ((\<forall>a. map_of (queued s) a \<noteq> None \<longrightarrow> rawResponses s a = None \<and> errors s a = None) \<and>
      (\<forall>a. rawResponses s a \<noteq> None \<longrightarrow> errors s a = None))"

definition inv_core :: "crawler \<Rightarrow> bool" where
  "inv_core s = (inv_count s \<and> inv_flight s \<and> inv_disjoint s \<and> 1 \<le> maxRequests s \<and>
     peersData s = Map.empty)"

definition wf :: "crawler \<Rightarrow> bool" where
  "wf s = (inv_core s \<and> length (pending s) \<le> maxRequests s \<and>
     (emitted s = [] \<longleftrightarrow> pending s \<noteq> []) \<and> length (emitted s) \<le> 1 \<and>
     (pending s = [] \<longrightarrow> queued s = []) \<and>
     startTime s \<noteq> None \<and> entryIP s \<noteq> None \<and>
     (\<forall>r \<in> set (emitted s).
        r = \<lparr>r_start = startTime s, r_end = endTime s, r_entry = entryIP s,
             r_data = rawResponses s, r_errors = errors s\<rparr>))"

subsection \<open>A sample traversal\<close>

text \<open>
  A crawler with the cap 1 is entered at 10.0.0.1. Either the request fails, or it resolves
  with a document that lists 10.0.0.2, 10.0.0.3:6561 and 10.0.0.2 again.
\<close>

definition example_entered :: crawler where
  "example_entered = enter (Crawler (Some 1) fresh_globals) ''10.0.0.1'' ''t0''"

definition example_body :: body where
  "example_body =
     Body [Peer (Str ''10.0.0.2'') Undefined, Peer (Str ''10.0.0.3:6561'') Undefined,
           Peer (Str ''10.0.0.2'') (Num 51235)]
          [(''server'', Str ''rippled'')]"

definition example_running :: crawler where
  "example_running =
     (case complete True example_entered 0 (Success example_body) ''t1'' of
        Inr s \<Rightarrow> s | Inl f \<Rightarrow> example_entered)"

definition example_settled :: crawler where
  "example_settled =
     (case settle True example_entered 0 (Success example_body) of
        Inr s \<Rightarrow> s | Inl f \<Rightarrow> example_entered)"

definition example_finished :: crawler where
  "example_finished =
     (case complete True example_entered 0 (Failure ''ETIMEDOUT'') ''t1'' of
        Inr s \<Rightarrow> s | Inl f \<Rightarrow> example_entered)"

section \<open>Properties\<close>

subsection \<open>Splitting a host string\<close>

lemma split_on_nonempty: "split_on c s \<noteq> []"
  by (induction s) auto

lemma hd_split_on: "hd (split_on c s) = takeWhile (\<lambda>x. x \<noteq> c) s"
  by (induction s) auto

lemma split_on_no_sep: "c \<notin> set s \<Longrightarrow> split_on c s = [s]"
  by (induction s) auto

lemma tl_split_on: "tl (split_on c s) = (if c \<in> set s then split_on c (drop 1 (dropWhile (\<lambda>x. x \<noteq> c) s)) else [])"
  by (induction s) (auto simp: split_on_no_sep)

lemma js_index_split_on_1:
  "js_index (split_on c s) (Suc 0) =
     (if c \<in> set s then Str (takeWhile (\<lambda>x. x \<noteq> c) (drop 1 (dropWhile (\<lambda>x. x \<noteq> c) s)))
      else Undefined)"
proof -
  obtain w ws where sp: "split_on c s = w # ws"
    using split_on_nonempty [of c s] by (cases "split_on c s") auto
  have ws: "ws = (if c \<in> set s then split_on c (drop 1 (dropWhile (\<lambda>x. x \<noteq> c) s)) else [])"
    using tl_split_on [of c s] sp by simp
  show ?thesis
  proof (cases "c \<in> set s")
    case True
    obtain v vs where "split_on c (drop 1 (dropWhile (\<lambda>x. x \<noteq> c) s)) = v # vs"
      using split_on_nonempty [of c "drop 1 (dropWhile (\<lambda>x. x \<noteq> c) s)"]
      by (cases "split_on c (drop 1 (dropWhile (\<lambda>x. x \<noteq> c) s))") auto
    moreover from this have "v = takeWhile (\<lambda>x. x \<noteq> c) (drop 1 (dropWhile (\<lambda>x. x \<noteq> c) s))"
      using hd_split_on [of c "drop 1 (dropWhile (\<lambda>x. x \<noteq> c) s)"] by simp
    ultimately show ?thesis using True sp ws by (simp add: js_index_def)
  next
    case False
    then show ?thesis using sp ws by (simp add: js_index_def)
  qed
qed

lemma default_port_string: "to_string DEFAULT_PORT = ''51235''"
  by (simp add: DEFAULT_PORT_def dec_digits.simps)

lemma embedded_port_no_colon:
  assumes "CHR '':'' \<notin> set s"
  shows "embedded_port s = []"
proof -
  have h: "dropWhile (\<lambda>c. c \<noteq> CHR '':'') s = []"
    using assms by (induction s) auto
  show ?thesis unfolding embedded_port_def h by simp
qed

subsection \<open>normalizeIpp\<close>

text \<open>
  C1. For a non-empty host string, the result is the host, a colon and a port; the port is
  the port argument when that is truthy, otherwise the port embedded in the host string when
  there is one, otherwise the default port 51235.
\<close>

theorem normalizeIpp_port_precedence:
  assumes "ip \<noteq> []"
  shows "fst (normalizeIpp g (Str ip) port) =
    Inr (Str (host_part ip @ '':'' @
      (if truthy port then to_string port
       else if embedded_port ip \<noteq> [] then embedded_port ip
       else ''51235'')))"
proof (cases "CHR '':'' \<in> set ip")
  case True
  then show ?thesis using assms
    by (simp add: normalizeIpp_def Let_def hd_split_on js_index_split_on_1 js_or_def
        host_part_def embedded_port_def default_port_string)
next
  case False
  then show ?thesis using assms embedded_port_no_colon [of ip]
    by (simp add: normalizeIpp_def Let_def hd_split_on js_index_split_on_1 js_or_def
        host_part_def default_port_string)
qed

theorem normalizeIpp_port_precedence_witness:
  "''10.0.0.1'' \<noteq> [] \<and>
   fst (normalizeIpp fresh_globals (Str ''10.0.0.1'') Undefined) = Inr (Str ''10.0.0.1:51235'') \<and>
   fst (normalizeIpp fresh_globals (Str ''10.0.0.1:6561'') Undefined) = Inr (Str ''10.0.0.1:6561'') \<and>
   fst (normalizeIpp fresh_globals (Str ''10.0.0.1'') (Str ''8080'')) = Inr (Str ''10.0.0.1:8080'') \<and>
   fst (normalizeIpp fresh_globals (Str ''10.0.0.1:6561'') (Num 8080)) = Inr (Str ''10.0.0.1:8080'')"
  using normalizeIpp_port_precedence [of "''10.0.0.1''" fresh_globals Undefined]
    normalizeIpp_port_precedence [of "''10.0.0.1:6561''" fresh_globals Undefined]
    normalizeIpp_port_precedence [of "''10.0.0.1''" fresh_globals "Str ''8080''"]
    normalizeIpp_port_precedence [of "''10.0.0.1:6561''" fresh_globals "Num 8080"]
  by (simp add: host_part_def embedded_port_def dec_digits.simps)

text \<open>
  C2. The claim is that an absent host gives an empty result and that the result depends
  on the arguments only. The code returns the undeclared variable \<^verbatim>\<open>ipp\<close>: after a call for
  10.0.0.1, a call without a host returns the address of that earlier call, and a first call
  without a host throws a \<^verbatim>\<open>ReferenceError\<close>.
\<close>

theorem normalizeIpp_absent_host_stale:
  "fst (normalizeIpp (snd (normalizeIpp fresh_globals (Str ''10.0.0.1'') Undefined)) Undefined Undefined)
     = Inr (Str ''10.0.0.1:51235'') \<and>
   fst (normalizeIpp fresh_globals Undefined Undefined) = Inl (ReferenceError ''ipp is not defined'')"
  by (simp add: normalizeIpp_def Let_def js_index_def js_or_def DEFAULT_PORT_def
      dec_digits.simps fresh_globals_def)

subsection \<open>normalizePubKey\<close>




subsection \<open>The queue's contract\<close>

text \<open>
  C5. A call of \<^verbatim>\<open>enqueue\<close> for an address in the queue, and a call of \<^verbatim>\<open>dequeue\<close> for an
  address not in it, stop the program: with the debug flag the message is printed and the
  process exits, without it an \<^verbatim>\<open>Error\<close> with the message is thrown. The callback of a request
  passes the fault on: no state comes back, so nothing is stored in \<^verbatim>\<open>errors\<close>.
\<close>

theorem queue_contract_violation_fatal:
  "(map_of (queued s) ipp \<noteq> None \<longrightarrow>
      enqueue dbg s ipp =
        Inl (if dbg then ProcessExit ''queued already'' else ThrownError ''queued already'')) \<and>
   (map_of (queued s) ipp = None \<longrightarrow>
      dequeue dbg s ipp =
        Inl (if dbg then ProcessExit ''not queued already''
             else ThrownError ''not queued already'')) \<and>
   (i < length (pending s) \<and> map_of (queued s) (f_ipp (pending s ! i)) = None \<longrightarrow>
      complete dbg s i resp now =
        Inl (if dbg then ProcessExit ''not queued already''
             else ThrownError ''not queued already''))"
  by (simp add: enqueue_def dequeue_def abortIfNot_def complete_def settle_def Let_def)

theorem queue_contract_violation_fatal_witness:
  "map_of (queued violating_state) ''a:1'' \<noteq> None \<and>
   enqueue True violating_state ''a:1'' = Inl (ProcessExit ''queued already'') \<and>
   enqueue DEBUG violating_state ''a:1'' = Inl (ProcessExit ''queued already'') \<and>
   enqueue False violating_state ''a:1'' = Inl (ThrownError ''queued already'') \<and>
   map_of (queued violating_state) ''b:1'' = None \<and>
   dequeue True violating_state ''b:1'' = Inl (ProcessExit ''not queued already'') \<and>
   dequeue False violating_state ''b:1'' = Inl (ThrownError ''not queued already'') \<and>
   0 < length (pending violating_state) \<and>
   complete True violating_state 0 (Failure ''ETIMEDOUT'') ''t1''
     = Inl (ProcessExit ''not queued already'')"
  using queue_contract_violation_fatal [of violating_state "''a:1''" True 0 "Failure ''ETIMEDOUT''" "''t1''"]
    queue_contract_violation_fatal [of violating_state "''a:1''" False 0 "Failure ''ETIMEDOUT''" "''t1''"]
    queue_contract_violation_fatal [of violating_state "''b:1''" True 0 "Failure ''ETIMEDOUT''" "''t1''"]
    queue_contract_violation_fatal [of violating_state "''b:1''" False 0 "Failure ''ETIMEDOUT''" "''t1''"]
  by (simp add: violating_state_def Crawler_def DEBUG_def)

subsection \<open>savePeerData\<close>

text \<open>
  C6. The claim, and the comment above \<^verbatim>\<open>savePeerData\<close>, say that the first value seen for a
  field is kept. Called with a key and a view only, the code stores every field of the view
  but \<^verbatim>\<open>type\<close>: the second view's version replaces the first one's.
\<close>

theorem savePeerData_later_view_overwrites:
  "(case peersData
      (savePeerData
        (savePeerData (Crawler None fresh_globals) ''pk'' [(''version'', Str ''1'')] Undefined)
        ''pk'' [(''version'', Str ''2'')] Undefined) ''pk'' of
      None \<Rightarrow> Undefined
    | Some m \<Rightarrow> js_get m ''version'') = Str ''2''"
  by (simp add: savePeerData_def Crawler_def js_get_def)

subsection \<open>The invariants hold in every state of a traversal\<close>

lemma inv_flight_enqueue:
  assumes "inv_flight s" "map_of (queued s) k = None"
  shows "inv_flight (s\<lparr>queued := AList.update k QUEUED (queued s)\<rparr>)"
proof -
  have "k \<notin> f_ipp ` set (pending s)"
    using assms unfolding inv_flight_def by (metis option.distinct(1))
  then show ?thesis
    using assms unfolding inv_flight_def by (auto simp: AList.update_conv')
qed

lemma inv_core_enqueueIfNeeded:
  assumes "inv_core s" "enqueueIfNeeded dbg s v = Inr s'"
  shows "inv_core s'"
proof (cases "s' = s")
  case True
  then show ?thesis using assms by simp
next
  case False
  then have k: "rawResponses s (to_string v) = None" "map_of (queued s) (to_string v) = None"
    "errors s (to_string v) = None"
    and s': "s' = s\<lparr>queued := AList.update (to_string v) QUEUED (queued s)\<rparr>"
    using assms(2)
    by (auto simp: enqueueIfNeeded_def enqueue_def abortIfNot_def split: if_splits)
  have "inv_flight s'"
    using inv_flight_enqueue [OF _ k(2)] assms(1) s' by (simp add: inv_core_def)
  moreover have "inv_disjoint s'"
    using assms(1) k s' by (auto simp: inv_core_def inv_disjoint_def AList.update_conv')
  ultimately show ?thesis
    using assms(1) s' by (simp add: inv_core_def inv_count_def)
qed

lemma enqueueIfNeeded_frame:
  assumes "enqueueIfNeeded dbg s v = Inr s'"
  shows "pending s' = pending s \<and> emitted s' = emitted s \<and> maxRequests s' = maxRequests s \<and>
    endTime s' = endTime s \<and> startTime s' = startTime s \<and> entryIP s' = entryIP s \<and>
    rawResponses s' = rawResponses s \<and> errors s' = errors s \<and>
    currentRequests s' = currentRequests s"
  using assms
  by (auto simp: enqueueIfNeeded_def enqueue_def abortIfNot_def split: if_splits)

lemma inv_core_globals: "inv_core (s\<lparr>module_globals := g\<rparr>) = inv_core s"
  by (simp add: inv_core_def inv_count_def inv_flight_def inv_disjoint_def)

lemma inv_core_discover:
  assumes "inv_core s" "discover dbg s ps = Inr s'"
  shows "inv_core s'"
  using assms
proof (induction ps arbitrary: s)
  case Nil
  then show ?case by simp
next
  case (Cons p ps)
  obtain r g where n: "normalizeIpp (module_globals s) (peer_ip p) (peer_port p) = (r, g)"
    by (cases "normalizeIpp (module_globals s) (peer_ip p) (peer_port p)")
  with Cons.prems obtain v where r: "r = Inr v" by (cases r) auto
  with n Cons.prems obtain s1 where
    e: "enqueueIfNeeded dbg (s\<lparr>module_globals := g\<rparr>) v = Inr s1" and d: "discover dbg s1 ps = Inr s'"
    by (auto split: sum.splits)
  have "inv_core s1"
    using inv_core_enqueueIfNeeded [OF _ e] Cons.prems(1) by (simp add: inv_core_globals)
  then show ?case using Cons.IH d by blast
qed

lemma discover_frame:
  assumes "discover dbg s ps = Inr s'"
  shows "pending s' = pending s \<and> emitted s' = emitted s \<and> maxRequests s' = maxRequests s \<and>
    endTime s' = endTime s \<and> startTime s' = startTime s \<and> entryIP s' = entryIP s \<and>
    rawResponses s' = rawResponses s \<and> errors s' = errors s \<and>
    currentRequests s' = currentRequests s"
  using assms
proof (induction ps arbitrary: s)
  case Nil
  then show ?case by simp
next
  case (Cons p ps)
  obtain r g where n: "normalizeIpp (module_globals s) (peer_ip p) (peer_port p) = (r, g)"
    by (cases "normalizeIpp (module_globals s) (peer_ip p) (peer_port p)")
  with Cons.prems obtain v where r: "r = Inr v" by (cases r) auto
  with n Cons.prems obtain s1 where
    e: "enqueueIfNeeded dbg (s\<lparr>module_globals := g\<rparr>) v = Inr s1" and d: "discover dbg s1 ps = Inr s'"
    by (auto split: sum.splits)
  show ?case using enqueueIfNeeded_frame [OF e] Cons.IH [OF d] by simp
qed


lemma remove_nth_keys:
  assumes "distinct (map f ps)" "i < length ps"
  shows "distinct (map f (take i ps @ drop (Suc i) ps)) \<and>
    f ` set (take i ps @ drop (Suc i) ps) = f ` set ps - {f (ps ! i)}"
proof -
  have ps: "ps = take i ps @ ps ! i # drop (Suc i) ps"
    using assms(2) by (rule id_take_nth_drop)
  have "distinct (map f (take i ps @ ps ! i # drop (Suc i) ps))"
    using assms(1) ps by simp
  then have d: "distinct (map f (take i ps @ drop (Suc i) ps))"
    and n: "f (ps ! i) \<notin> f ` set (take i ps @ drop (Suc i) ps)"
    by auto
  have "f ` set ps = insert (f (ps ! i)) (f ` set (take i ps @ drop (Suc i) ps))"
    by (subst ps) auto
  with d n show ?thesis by auto
qed

lemma inv_core_resolve:
  assumes "inv_core s" "i < length (pending s)"
  shows "dequeue dbg
           (s\<lparr>pending := take i (pending s) @ drop (Suc i) (pending s),
              currentRequests := currentRequests s - 1\<rparr>) (f_ipp (pending s ! i))
         = Inr (s\<lparr>pending := take i (pending s) @ drop (Suc i) (pending s),
                  currentRequests := currentRequests s - 1,
                  queued := AList.delete (f_ipp (pending s ! i)) (queued s)\<rparr>)"
    and "inv_core (s\<lparr>pending := take i (pending s) @ drop (Suc i) (pending s),
                  currentRequests := currentRequests s - 1,
                  queued := AList.delete (f_ipp (pending s ! i)) (queued s),
                  errors := (errors s)(f_ipp (pending s ! i) \<mapsto> code)\<rparr>)"
    and "inv_core (s\<lparr>pending := take i (pending s) @ drop (Suc i) (pending s),
                  currentRequests := currentRequests s - 1,
                  queued := AList.delete (f_ipp (pending s ! i)) (queued s),
                  rawResponses := (rawResponses s)(f_ipp (pending s ! i) \<mapsto> b)\<rparr>)"
proof -
  let ?ipp = "f_ipp (pending s ! i)"
  have fl: "distinct (map f_ipp (pending s))"
    and rq: "\<And>a. map_of (queued s) a = Some REQUESTING \<longleftrightarrow> a \<in> f_ipp ` set (pending s)"
    using assms(1) by (auto simp: inv_core_def inv_flight_def)
  have "?ipp \<in> f_ipp ` set (pending s)"
    using assms(2) by simp
  then have q: "map_of (queued s) ?ipp = Some REQUESTING"
    using rq by blast
  then have free: "rawResponses s ?ipp = None" "errors s ?ipp = None"
    using assms(1) by (auto simp: inv_core_def inv_disjoint_def)
  show "dequeue dbg
           (s\<lparr>pending := take i (pending s) @ drop (Suc i) (pending s),
              currentRequests := currentRequests s - 1\<rparr>) ?ipp
         = Inr (s\<lparr>pending := take i (pending s) @ drop (Suc i) (pending s),
                  currentRequests := currentRequests s - 1,
                  queued := AList.delete ?ipp (queued s)\<rparr>)"
    using q by (simp add: dequeue_def abortIfNot_def)
  note rm = remove_nth_keys [OF fl assms(2)]
  have len: "int (length (take i (pending s) @ drop (Suc i) (pending s))) = int (length (pending s)) - 1"
    using assms(2) by auto
  have cnt: "currentRequests s = int (length (pending s))"
    using assms(1) by (simp add: inv_core_def inv_count_def)
  have flight: "\<And>a. ((map_of (queued s))(?ipp := None)) a = Some REQUESTING \<longleftrightarrow>
      a \<in> f_ipp ` set (take i (pending s) @ drop (Suc i) (pending s))"
    using rm rq by auto
  have dj1: "\<And>a. map_of (queued s) a \<noteq> None \<Longrightarrow> rawResponses s a = None \<and> errors s a = None"
    and dj2: "\<And>a. rawResponses s a \<noteq> None \<Longrightarrow> errors s a = None"
    using assms(1) by (auto simp: inv_core_def inv_disjoint_def)
  have rest: "1 \<le> maxRequests s" "peersData s = Map.empty"
    using assms(1) by (auto simp: inv_core_def)
  show "inv_core (s\<lparr>pending := take i (pending s) @ drop (Suc i) (pending s),
                  currentRequests := currentRequests s - 1,
                  queued := AList.delete ?ipp (queued s),
                  errors := (errors s)(?ipp \<mapsto> code)\<rparr>)"
    unfolding inv_core_def inv_count_def inv_flight_def inv_disjoint_def
    using rm flight dj1 dj2 rest free cnt len
    by (simp add: AList.delete_conv' del: length_append) 
  show "inv_core (s\<lparr>pending := take i (pending s) @ drop (Suc i) (pending s),
                  currentRequests := currentRequests s - 1,
                  queued := AList.delete ?ipp (queued s),
                  rawResponses := (rawResponses s)(?ipp \<mapsto> b)\<rparr>)"
    unfolding inv_core_def inv_count_def inv_flight_def inv_disjoint_def
    using rm flight dj1 dj2 rest free cnt len
    by (simp add: AList.delete_conv' del: length_append)
qed


lemma settle_cases:
  assumes "settle dbg s i resp = Inr s3"
  obtains (failure) code where "resp = Failure code"
      "map_of (queued s) (f_ipp (pending s ! i)) \<noteq> None"
      "s3 = s\<lparr>pending := take i (pending s) @ drop (Suc i) (pending s),
               currentRequests := currentRequests s - 1,
               queued := AList.delete (f_ipp (pending s ! i)) (queued s),
               errors := (errors s)(f_ipp (pending s ! i) \<mapsto> code)\<rparr>"
    | (success) b where "resp = Success b"
      "map_of (queued s) (f_ipp (pending s ! i)) \<noteq> None"
      "discover dbg
         (s\<lparr>pending := take i (pending s) @ drop (Suc i) (pending s),
            currentRequests := currentRequests s - 1,
            queued := AList.delete (f_ipp (pending s ! i)) (queued s),
            rawResponses := (rawResponses s)(f_ipp (pending s ! i) \<mapsto> b)\<rparr>)
         (overlay_active b) = Inr s3"
proof (cases resp)
  case (Failure code)
  then show ?thesis
    using assms failure
    by (auto simp: settle_def Let_def dequeue_def abortIfNot_def split: if_splits)
next
  case (Success b)
  then show ?thesis
    using assms success
    by (auto simp: settle_def Let_def dequeue_def abortIfNot_def split: if_splits)
next
  case NoPeerList
  then show ?thesis
    using assms
    by (auto simp: settle_def Let_def dequeue_def abortIfNot_def split: if_splits)
qed

lemma inv_core_settle:
  assumes "inv_core s" "i < length (pending s)" "settle dbg s i resp = Inr s3"
  shows "inv_core s3 \<and> pending s3 = take i (pending s) @ drop (Suc i) (pending s) \<and>
    emitted s3 = emitted s \<and> maxRequests s3 = maxRequests s \<and> endTime s3 = endTime s \<and>
    startTime s3 = startTime s \<and> entryIP s3 = entryIP s"
  using assms(3)
proof (cases rule: settle_cases)
  case (failure code)
  then show ?thesis using inv_core_resolve(2) [OF assms(1,2)] by simp
next
  case (success b)
  show ?thesis
    using inv_core_discover [OF inv_core_resolve(3) [OF assms(1,2)] success(3)]
      discover_frame [OF success(3)]
    by simp
qed

lemma inv_core_admit:
  assumes "inv_core s" "length (pending s) \<le> maxRequests s"
  shows "inv_core (admit s hops q) \<and> length (pending (admit s hops q)) \<le> maxRequests (admit s hops q)"
proof (cases "currentRequests s < int (maxRequests s) \<and> map_of (queued s) q = Some QUEUED")
  case False
  then show ?thesis using assms by (auto simp: admit_def)
next
  case True
  then have a: "admit s hops q =
      s\<lparr>queued := AList.update q REQUESTING (queued s),
        currentRequests := currentRequests s + 1,
        pending := pending s @ [Fetch (crawlUrl q) q (hops + 1)]\<rparr>"
    by (simp add: admit_def crawl_def crawlOne_def crawlRequest_def)
  have fl: "distinct (map f_ipp (pending s))"
    and rq: "\<And>a. map_of (queued s) a = Some REQUESTING \<longleftrightarrow> a \<in> f_ipp ` set (pending s)"
    using assms(1) by (auto simp: inv_core_def inv_flight_def)
  have nq: "q \<notin> f_ipp ` set (pending s)"
    using True rq [of q] by auto
  have cnt: "currentRequests s = int (length (pending s))"
    using assms(1) by (simp add: inv_core_def inv_count_def)
  have dj1: "\<And>a. map_of (queued s) a \<noteq> None \<Longrightarrow> rawResponses s a = None \<and> errors s a = None"
    and dj2: "\<And>a. rawResponses s a \<noteq> None \<Longrightarrow> errors s a = None"
    using assms(1) by (auto simp: inv_core_def inv_disjoint_def)
  have rest: "1 \<le> maxRequests s" "peersData s = Map.empty"
    using assms(1) by (auto simp: inv_core_def)
  have free: "rawResponses s q = None \<and> errors s q = None"
    using True dj1 [of q] by simp
  have "inv_core (admit s hops q)"
    unfolding a inv_core_def inv_count_def inv_flight_def inv_disjoint_def
    using fl rq nq cnt dj1 dj2 rest free
    by (auto simp: AList.update_conv')
  moreover have "length (pending (admit s hops q)) \<le> maxRequests (admit s hops q)"
    using True cnt unfolding a by simp
  ultimately show ?thesis by simp
qed

lemma admit_frame:
  "emitted (admit s hops q) = emitted s \<and> maxRequests (admit s hops q) = maxRequests s \<and>
   endTime (admit s hops q) = endTime s \<and> startTime (admit s hops q) = startTime s \<and>
   entryIP (admit s hops q) = entryIP s \<and> rawResponses (admit s hops q) = rawResponses s \<and>
   errors (admit s hops q) = errors s \<and>
   map fst (queued (admit s hops q)) = map fst (queued s) \<and>
   length (pending s) \<le> length (pending (admit s hops q))"
proof -
  have "map_of (queued s) q = Some QUEUED \<Longrightarrow> q \<in> set (map fst (queued s))"
    by (metis map_of_eq_None_iff option.distinct(1) set_map)
  then show ?thesis
    by (auto simp: admit_def crawl_def crawlOne_def crawlRequest_def AList.update_keys)
qed

lemma inv_core_admit_each:
  assumes "inv_core s" "length (pending s) \<le> maxRequests s"
  shows "inv_core (admit_each s hops qs) \<and>
    length (pending (admit_each s hops qs)) \<le> maxRequests (admit_each s hops qs)"
  using assms
proof (induction qs arbitrary: s)
  case Nil
  then show ?case by simp
next
  case (Cons q qs)
  show ?case
    using Cons.IH [of "admit s hops q"] inv_core_admit [OF Cons.prems] by simp
qed

lemma admit_each_frame:
  "emitted (admit_each s hops qs) = emitted s \<and> maxRequests (admit_each s hops qs) = maxRequests s \<and>
   endTime (admit_each s hops qs) = endTime s \<and> startTime (admit_each s hops qs) = startTime s \<and>
   entryIP (admit_each s hops qs) = entryIP s \<and> rawResponses (admit_each s hops qs) = rawResponses s \<and>
   errors (admit_each s hops qs) = errors s \<and>
   map fst (queued (admit_each s hops qs)) = map fst (queued s) \<and>
   length (pending s) \<le> length (pending (admit_each s hops qs))"
proof (induction qs arbitrary: s)
  case Nil
  then show ?case by simp
next
  case (Cons q qs)
  show ?case
    using Cons.IH [of "admit s hops q"] admit_frame [of s hops q]
    by (simp del: map_eq_conv) 
qed


lemma wf_enter: "wf (enter (Crawler maxReq g) ip now)"
  by (auto simp: wf_def inv_core_def inv_count_def inv_flight_def inv_disjoint_def enter_def
      crawl_def crawlOne_def crawlRequest_def Crawler_def split: option.splits)

lemma inv_core_finish: "inv_core (finish s now) = inv_core s"
  by (simp add: finish_def inv_core_def inv_count_def inv_flight_def inv_disjoint_def)

lemma no_flight_no_pending:
  assumes "inv_core s" "queued s = []"
  shows "pending s = []"
proof -
  have "f_ipp ` set (pending s) = {}"
    using assms by (auto simp: inv_core_def inv_flight_def)
  then show ?thesis by simp
qed

lemma admit_each_keeps_flight:
  assumes "inv_core s" "length (pending s) < maxRequests s" "queued s \<noteq> []"
  shows "pending (admit_each s hops (map fst (queued s))) \<noteq> []"
proof (cases "pending s = []")
  case False
  then show ?thesis
    using admit_each_frame [of s hops "map fst (queued s)"] by auto
next
  case True
  obtain q st rest where qs: "queued s = (q, st) # rest"
    using assms(3) by (cases "queued s") auto
  have "map_of (queued s) q \<noteq> Some REQUESTING"
    using assms(1) True by (auto simp: inv_core_def inv_flight_def)
  then have st: "map_of (queued s) q = Some QUEUED"
    using qs by (cases st) auto
  have "currentRequests s < int (maxRequests s)"
    using assms(1,2) by (simp add: inv_core_def inv_count_def)
  then have "pending (admit s hops q) \<noteq> []"
    using st by (simp add: admit_def crawl_def crawlOne_def crawlRequest_def)
  then have "pending (admit_each (admit s hops q) hops (map fst rest)) \<noteq> []"
    using admit_each_frame [of "admit s hops q" hops "map fst rest"] by auto
  then show ?thesis using qs by simp
qed

lemma complete_cases:
  assumes "i < length (pending s)" "complete dbg s i resp now = Inr s'"
  obtains (finished) s3 where "settle dbg s i resp = Inr s3" "queued s3 = []"
      "s' = finish s3 now"
    | (running) s3 where "settle dbg s i resp = Inr s3" "queued s3 \<noteq> []"
      "s' = admit_each s3 (f_hops (pending s ! i)) (map fst (queued s3))"
  using assms
  by (auto simp: complete_def requestMore_def Let_def split: sum.splits if_splits)

lemma wf_complete:
  assumes "wf s" "i < length (pending s)" "complete dbg s i resp now = Inr s'"
  shows "wf s'"
  using assms(2,3)
proof (cases rule: complete_cases)
  case (finished s3)
  have core: "inv_core s" and em: "emitted s = []"
    using assms(1,2) by (auto simp: wf_def)
  note st = inv_core_settle [OF core assms(2) finished(1)]
  have "pending s3 = []"
    using no_flight_no_pending [of s3] st finished(2) by simp
  then show ?thesis
    using st em finished(2,3) assms(1)
    by (simp add: wf_def inv_core_finish) (simp add: finish_def)
next
  case (running s3)
  have core: "inv_core s" and em: "emitted s = []" and le: "length (pending s) \<le> maxRequests s"
    and se: "startTime s \<noteq> None" "entryIP s \<noteq> None"
    using assms(1,2) by (auto simp: wf_def)
  note st = inv_core_settle [OF core assms(2) running(1)]
  have lt: "length (pending s3) < maxRequests s3"
    using st le assms(2) by auto
  note ad = inv_core_admit_each [of s3 "f_hops (pending s ! i)" "map fst (queued s3)"]
  note fr = admit_each_frame [of s3 "f_hops (pending s ! i)" "map fst (queued s3)"]
  have "pending s' \<noteq> []"
    using admit_each_keeps_flight [OF _ lt running(2)] st running(3) by simp
  then show ?thesis
    using ad fr st lt em se running(3) by (simp add: wf_def)
qed

lemma reachable_wf: "reachable dbg s \<Longrightarrow> wf s"
  by (induction rule: reachable.induct) (auto intro: wf_enter wf_complete)


lemma update_fresh_appends: "map_of al k = None \<Longrightarrow> AList.update k v al = al @ [(k, v)]"
  by (induction al) (auto split: if_splits)


lemma nodeState_globals [simp]: "nodeState (s\<lparr>module_globals := g\<rparr>) a = nodeState s a"
  by (simp add: nodeState_def cong: option.case_cong)

lemma tracked_globals [simp]: "tracked (s\<lparr>module_globals := g\<rparr>) a = tracked s a"
  by (simp add: tracked_def)

lemma enqueueIfNeeded_cases:
  obtains (noop) "\<not> truthy v \<or> tracked s (to_string v)" "enqueueIfNeeded dbg s v = Inr s"
    | (added) "truthy v" "\<not> tracked s (to_string v)"
        "enqueueIfNeeded dbg s v = Inr (s\<lparr>queued := queued s @ [(to_string v, QUEUED)]\<rparr>)"
proof (cases "truthy v \<and> \<not> tracked s (to_string v)")
  case True
  then show ?thesis
    using added
    by (simp add: enqueueIfNeeded_def enqueue_def abortIfNot_def tracked_def update_fresh_appends)
next
  case False
  then show ?thesis
    using noop by (auto simp: enqueueIfNeeded_def tracked_def)
qed

lemma enqueueIfNeeded_total: "\<exists>s'. enqueueIfNeeded dbg s v = Inr s'"
  by (rule enqueueIfNeeded_cases [of v s dbg]) auto






lemma settle_frame:
  assumes "settle dbg s i resp = Inr s3"
  shows "emitted s3 = emitted s \<and> endTime s3 = endTime s \<and> startTime s3 = startTime s \<and>
    entryIP s3 = entryIP s \<and> maxRequests s3 = maxRequests s"
  using assms
proof (cases rule: settle_cases)
  case (failure code)
  then show ?thesis by simp
next
  case (success b)
  show ?thesis using discover_frame [OF success(3)] by simp
qed







subsection \<open>The sample traversal, evaluated\<close>

lemma example_entered_eval:
  "queued example_entered = [(''10.0.0.1:51235'', REQUESTING)] \<and>
   pending example_entered = [Fetch ''https://10.0.0.1:51235/crawl'' ''10.0.0.1:51235'' 0] \<and>
   currentRequests example_entered = 1 \<and> maxRequests example_entered = 1 \<and>
   rawResponses example_entered = Map.empty \<and> errors example_entered = Map.empty \<and>
   emitted example_entered = [] \<and> startTime example_entered = Some ''t0'' \<and>
   endTime example_entered = None \<and>
   entryIP example_entered = Some ''10.0.0.1:51235'' \<and> module_globals example_entered = fresh_globals"
  by (simp add: example_entered_def enter_def crawl_def crawlOne_def crawlRequest_def
      Crawler_def withDefaultPort_def crawlUrl_def DEFAULT_PORT_def dec_digits.simps)

lemma example_settle_run:
  "\<exists>s3. settle True example_entered 0 (Success example_body) = Inr s3 \<and>
     queued s3 = [(''10.0.0.2:51235'', QUEUED), (''10.0.0.3:6561'', QUEUED)] \<and>
     pending s3 = [] \<and> currentRequests s3 = 0 \<and> maxRequests s3 = 1 \<and>
     rawResponses s3 = [''10.0.0.1:51235'' \<mapsto> example_body] \<and> errors s3 = Map.empty \<and>
     emitted s3 = [] \<and> endTime s3 = None \<and> startTime s3 = Some ''t0'' \<and>
     entryIP s3 = Some ''10.0.0.1:51235''"
  by (simp add: settle_def Let_def example_entered_eval dequeue_def abortIfNot_def
      example_body_def normalizeIpp_def js_index_def js_or_def DEFAULT_PORT_def
      dec_digits.simps fresh_globals_def enqueueIfNeeded_def enqueue_def)

lemma example_settled_eval:
  "settle True example_entered 0 (Success example_body) = Inr example_settled \<and>
   queued example_settled = [(''10.0.0.2:51235'', QUEUED), (''10.0.0.3:6561'', QUEUED)] \<and>
   pending example_settled = [] \<and> currentRequests example_settled = 0 \<and>
   maxRequests example_settled = 1 \<and>
   rawResponses example_settled = [''10.0.0.1:51235'' \<mapsto> example_body] \<and>
   errors example_settled = Map.empty \<and> emitted example_settled = [] \<and>
   endTime example_settled = None \<and> startTime example_settled = Some ''t0'' \<and>
   entryIP example_settled = Some ''10.0.0.1:51235''"
proof -
  obtain s3 where s3: "settle True example_entered 0 (Success example_body) = Inr s3"
    and fields: "queued s3 = [(''10.0.0.2:51235'', QUEUED), (''10.0.0.3:6561'', QUEUED)]"
    "pending s3 = []" "currentRequests s3 = 0" "maxRequests s3 = 1"
    "rawResponses s3 = [''10.0.0.1:51235'' \<mapsto> example_body]" "errors s3 = Map.empty"
    "emitted s3 = []" "endTime s3 = None" "startTime s3 = Some ''t0''"
    "entryIP s3 = Some ''10.0.0.1:51235''"
    using example_settle_run by blast
  have eq: "example_settled = s3"
    unfolding example_settled_def s3 by simp
  show ?thesis
    unfolding eq using s3 fields by simp
qed

lemma example_running_eval:
  "complete True example_entered 0 (Success example_body) ''t1'' = Inr example_running \<and>
   example_running = snd (requestMore example_settled 0) \<and>
   queued example_running = [(''10.0.0.2:51235'', REQUESTING), (''10.0.0.3:6561'', QUEUED)] \<and>
   pending example_running = [Fetch ''https://10.0.0.2:51235/crawl'' ''10.0.0.2:51235'' 1] \<and>
   currentRequests example_running = 1 \<and> maxRequests example_running = 1 \<and>
   rawResponses example_running = [''10.0.0.1:51235'' \<mapsto> example_body] \<and>
   errors example_running = Map.empty \<and> emitted example_running = [] \<and>
   endTime example_running = None"
proof -
  let ?s3 = example_settled
  note s3 = example_settled_eval
  have c: "complete True example_entered 0 (Success example_body) ''t1'' =
      Inr (admit (admit ?s3 0 ''10.0.0.2:51235'') 0 ''10.0.0.3:6561'')"
    and r: "snd (requestMore ?s3 0) = admit (admit ?s3 0 ''10.0.0.2:51235'') 0 ''10.0.0.3:6561''"
    using s3 by (simp_all add: complete_def requestMore_def example_entered_eval)
  let ?s4 = "?s3\<lparr>queued := [(''10.0.0.2:51235'', REQUESTING), (''10.0.0.3:6561'', QUEUED)],
         currentRequests := 1,
         pending := [Fetch ''https://10.0.0.2:51235/crawl'' ''10.0.0.2:51235'' 1]\<rparr>"
  have a1: "admit ?s3 0 ''10.0.0.2:51235'' = ?s4"
    using s3 by (simp add: admit_def crawl_def crawlOne_def crawlRequest_def crawlUrl_def
        withDefaultPort_def)
  have a2: "admit ?s4 0 ''10.0.0.3:6561'' = ?s4"
    using s3 by (simp add: admit_def)
  have c': "complete True example_entered 0 (Success example_body) ''t1'' = Inr ?s4"
    using c a1 a2 by simp
  have eq: "example_running = ?s4"
    unfolding example_running_def c' by simp
  have r': "snd (requestMore ?s3 0) = ?s4"
    by (simp only: r a1 a2)
  have fields: "maxRequests ?s3 = 1" "rawResponses ?s3 = [''10.0.0.1:51235'' \<mapsto> example_body]"
    "errors ?s3 = Map.empty" "emitted ?s3 = []" "endTime ?s3 = None"
    using s3 by simp_all
  show ?thesis
    unfolding eq r' c' by (simp add: fields)
qed

lemma example_finished_eval:
  "complete True example_entered 0 (Failure ''ETIMEDOUT'') ''t1'' = Inr example_finished \<and>
   queued example_finished = [] \<and> pending example_finished = [] \<and>
   errors example_finished = [''10.0.0.1:51235'' \<mapsto> ''ETIMEDOUT''] \<and>
   rawResponses example_finished = Map.empty \<and>
   endTime example_finished = Some ''t1'' \<and>
   emitted example_finished =
     [\<lparr>r_start = Some ''t0'', r_end = Some ''t1'', r_entry = Some ''10.0.0.1:51235'',
       r_data = Map.empty, r_errors = [''10.0.0.1:51235'' \<mapsto> ''ETIMEDOUT'']\<rparr>]"
  by (simp add: example_finished_def complete_def settle_def Let_def example_entered_eval
      dequeue_def abortIfNot_def requestMore_def finish_def)

lemma example_reachable:
  "reachable True example_entered" "reachable True example_running"
  "reachable True example_finished"
proof -
  show e: "reachable True example_entered"
    unfolding example_entered_def by (rule reachable.entered)
  have i: "0 < length (pending example_entered)"
    by (simp add: example_entered_eval)
  show "reachable True example_running"
    using reachable.resolved [OF e i] example_running_eval by blast
  show "reachable True example_finished"
    using reachable.resolved [OF e i] example_finished_eval by blast
qed


subsection \<open>Discovery\<close>



subsection \<open>The cap on requests in flight\<close>



subsection \<open>The merged peer records\<close>

text \<open>
  C10. No state of a traversal has an entry in \<^verbatim>\<open>peersData\<close>, and a report emitted holds the
  raw responses and the errors of the crawler.
\<close>

theorem crawl_never_writes_peersData:
  assumes "reachable dbg s"
  shows "peersData s = Map.empty \<and>
    (\<forall>r \<in> set (emitted s). r_data r = rawResponses s \<and> r_errors r = errors s)"
proof -
  have "wf s" using assms by (rule reachable_wf)
  then show ?thesis by (auto simp: wf_def inv_core_def)
qed

theorem crawl_never_writes_peersData_witness:
  "reachable True example_finished \<and> peersData example_finished = Map.empty \<and>
   emitted example_finished \<noteq> [] \<and>
   r_data (hd (emitted example_finished)) = rawResponses example_finished \<and>
   r_errors (hd (emitted example_finished)) = errors example_finished"
  using crawl_never_writes_peersData [OF example_reachable(3)] example_reachable(3)
    example_finished_eval
  by simp


subsection \<open>The lifecycle of an address\<close>




subsection \<open>The end of a traversal\<close>

text \<open>
  C9. When a request of a traversal resolves, \<^verbatim>\<open>requestMore\<close> reports whether the queue is
  non-empty. If it is empty, nothing is in flight, \<^verbatim>\<open>endTime\<close> is set and one report is
  emitted, with the start time, that end time, the entry address, the raw responses and the
  errors. If it is not empty, no report is emitted, \<^verbatim>\<open>endTime\<close> is unchanged and a request is
  in flight.
\<close>

theorem session_finalized_on_empty_queue:
  assumes "reachable dbg s" "i < length (pending s)" "complete dbg s i resp now = Inr s'"
  shows "(\<exists>s3. settle dbg s i resp = Inr s3 \<and>
            fst (requestMore s3 (f_hops (pending s ! i))) = (queued s' \<noteq> [])) \<and>
    startTime s \<noteq> None \<and> entryIP s \<noteq> None \<and>
    (queued s' = [] \<longrightarrow>
       endTime s' = Some now \<and> pending s' = [] \<and>
       emitted s' = [\<lparr>r_start = startTime s, r_end = Some now, r_entry = entryIP s,
                      r_data = rawResponses s', r_errors = errors s'\<rparr>]) \<and>
    (queued s' \<noteq> [] \<longrightarrow> endTime s' = endTime s \<and> emitted s' = [] \<and> pending s' \<noteq> [])"
proof -
  have wf: "wf s" using assms(1) by (rule reachable_wf)
  have wf': "wf s'" using wf assms(2,3) by (rule wf_complete)
  have em: "emitted s = []" and se: "startTime s \<noteq> None" "entryIP s \<noteq> None"
    using wf assms(2) by (auto simp: wf_def)
  from assms(2,3) show ?thesis
  proof (cases rule: complete_cases)
    case (finished s3)
    note fr = settle_frame [OF finished(1)]
    have "queued s' = []" using finished by (simp add: finish_def)
    moreover have "pending s' = []" using wf' \<open>queued s' = []\<close>
      by (meson no_flight_no_pending wf_def)
    ultimately show ?thesis
      using finished fr em se by (simp add: requestMore_def finish_def)
  next
    case (running s3)
    note fr = settle_frame [OF running(1)]
    note af = admit_each_frame [of s3 "f_hops (pending s ! i)" "map fst (queued s3)"]
    have k: "map fst (queued s') = map fst (queued s3)"
      using af running(3) by simp
    have q: "queued s' \<noteq> []"
      using k running(2) by auto
    have "pending s' \<noteq> []"
      using wf' q by (auto simp: wf_def)
    then show ?thesis
      using running fr af em se q by (simp add: requestMore_def)
  qed
qed

theorem session_finalized_on_empty_queue_witness:
  "reachable True example_entered \<and> 0 < length (pending example_entered) \<and>
   complete True example_entered 0 (Failure ''ETIMEDOUT'') ''t1'' = Inr example_finished \<and>
   queued example_finished = [] \<and> endTime example_finished = Some ''t1'' \<and>
   emitted example_finished =
     [\<lparr>r_start = Some ''t0'', r_end = Some ''t1'', r_entry = Some ''10.0.0.1:51235'',
       r_data = Map.empty, r_errors = [''10.0.0.1:51235'' \<mapsto> ''ETIMEDOUT'']\<rparr>] \<and>
   complete True example_entered 0 (Success example_body) ''t1'' = Inr example_running \<and>
   queued example_running \<noteq> [] \<and> emitted example_running = [] \<and>
   pending example_running \<noteq> []"
proof -
  have i: "0 < length (pending example_entered)"
    by (simp add: example_entered_eval)
  have f: "complete True example_entered 0 (Failure ''ETIMEDOUT'') ''t1'' = Inr example_finished"
    using example_finished_eval by simp
  have r: "complete True example_entered 0 (Success example_body) ''t1'' = Inr example_running"
    using example_running_eval by simp
  note a = session_finalized_on_empty_queue [OF example_reachable(1) i f]
  note b = session_finalized_on_empty_queue [OF example_reachable(1) i r]
  have qf: "queued example_finished = []" using example_finished_eval by simp
  have qr: "queued example_running \<noteq> []" using example_running_eval by simp
  have "endTime example_finished = Some ''t1''"
    using a qf by simp
  moreover have "emitted example_running = [] \<and> pending example_running \<noteq> []"
    using b qr by simp
  ultimately show ?thesis
    using example_reachable(1) i f r qf qr example_finished_eval by simp
qed

end
